theory Spec2Isabelle
  imports Main
begin

section \<open>Strings of the platform\<close>

text \<open>
  A string is a list of characters. \<open>startsWith\<close> and \<open>includes_str\<close> are the
  two string tests the script uses: \<open>s.startsWith(p)\<close> and \<open>s.indexOf(p) !== -1\<close>.
\<close>

definition startsWith :: "string \<Rightarrow> string \<Rightarrow> bool" where
  "startsWith p s = (take (length p) s = p)"

fun includes_str :: "string \<Rightarrow> string \<Rightarrow> bool" where
  "includes_str p [] = (p = [])"
| "includes_str p (c # cs) = (startsWith p (c # cs) \<or> includes_str p cs)"

section \<open>The download extension: the file name of a download\<close>

text \<open>
  The \<open>onload\<close> handler of the download extension reads the \<open>Content-Disposition\<close>
  header and matches it against the regular expression
  \<^verbatim>\<open>/filename[^;=\n]*=((['"]).*?\2|[^;\n]*)/\<close>.

  \<open>quoted\<close> is the first alternative of group 1, \<^verbatim>\<open>(['"]).*?\2\<close>: a quote character,
  the shortest run of characters other than line terminators, and the same quote again.
  The result holds both quotes, as the group does.
\<close>

definition quoted :: "string \<Rightarrow> string option" where
  "quoted t =
     (case t of
        [] \<Rightarrow> None
      | q # u \<Rightarrow>
          if q = CHR 0x27 \<or> q = CHR 0x22 then
            (let body = takeWhile (\<lambda>c. c \<noteq> q \<and> c \<noteq> CHR 0x0A \<and> c \<noteq> CHR 0x0D) u
             in case drop (length body) u of
                  [] \<Rightarrow> None
                | c # _ \<Rightarrow> if c = q then Some (q # body @ [q]) else None)
          else None)"

text \<open>
  Group 1 is the quoted form when it matches, and otherwise the second alternative
  \<^verbatim>\<open>[^;\n]*\<close>, the longest run without a semicolon or a newline (it may be empty).
\<close>

definition group1 :: "string \<Rightarrow> string" where
  "group1 t =
     (case quoted t of
        Some g \<Rightarrow> g
      | None \<Rightarrow> takeWhile (\<lambda>c. c \<noteq> CHR '';'' \<and> c \<noteq> CHR 0x0A) t)"

text \<open>
  A match that starts at the head of \<open>s\<close>: the word \<open>filename\<close>, the longest run of
  \<^verbatim>\<open>[^;=\n]\<close>, then \<open>=\<close>, then group 1. The run cannot give characters back to let
  \<open>=\<close> match, since it holds no \<open>=\<close>.
\<close>

definition match_here :: "string \<Rightarrow> string option" where
  "match_here s =
     (if startsWith ''filename'' s then
        (case dropWhile (\<lambda>c. c \<noteq> CHR '';'' \<and> c \<noteq> CHR ''='' \<and> c \<noteq> CHR 0x0A) (drop 8 s) of
           [] \<Rightarrow> None
         | c # t \<Rightarrow> if c = CHR ''='' then Some (group1 t) else None)
      else None)"

text \<open>
  \<open>contentDisposition.match(...)\<close>: the leftmost position where the expression matches;
  the result is group 1 of that match, \<open>None\<close> when there is no match.
\<close>

fun filenameMatch :: "string \<Rightarrow> string option" where
  "filenameMatch [] = match_here []"
| "filenameMatch (c # cs) =
     (case match_here (c # cs) of Some g \<Rightarrow> Some g | None \<Rightarrow> filenameMatch cs)"

text \<open>
  The outcome of \<open>onload\<close> as far as the file name goes: the response is no download,
  or it is saved under a name, or \<open>decodeURIComponent\<close> raised \<open>URIError\<close>.
\<close>

datatype download = NotADownload | SavedAs string | URIError

text \<open>
  The file name, from line 55 to line 63 of the script. \<open>decodeURIComponent\<close> is the
  platform's function, a parameter here (\<open>None\<close> when it raises).
\<close>

definition extract_filename :: "(string \<Rightarrow> string option) \<Rightarrow> string \<Rightarrow> download" where
  "extract_filename decodeURIComponent contentDisposition =
     (case filenameMatch contentDisposition of
        None \<Rightarrow> SavedAs ''download''
      | Some g \<Rightarrow>
          if g = [] then SavedAs ''download''
          else
            (let filename = filter (\<lambda>c. c \<noteq> CHR 0x27 \<and> c \<noteq> CHR 0x22) g
             in if startsWith (''UTF-8'' @ [CHR 0x27, CHR 0x27]) filename then
                  (case decodeURIComponent (drop 7 filename) of
                     None \<Rightarrow> URIError
                   | Some f \<Rightarrow> SavedAs f)
                else SavedAs filename))"

text \<open>
  The handler: a status from 200 to 299 and a header that holds the word
  \<open>attachment\<close> make a download. The header is \<open>None\<close> when the response has none.
\<close>

definition onload :: "(string \<Rightarrow> string option) \<Rightarrow> nat \<Rightarrow> string option \<Rightarrow> download" where
  "onload decodeURIComponent status header =
     (if 200 \<le> status \<and> status < 300 then
        (case header of
           None \<Rightarrow> NotADownload
         | Some contentDisposition \<Rightarrow>
             if contentDisposition \<noteq> [] \<and> includes_str ''attachment'' contentDisposition
             then extract_filename decodeURIComponent contentDisposition
             else NotADownload)
      else NotADownload)"

section \<open>The table selection store\<close>

subsection \<open>Data\<close>

text \<open>
  One entry of \<open>tableData\<close>: the ids of the records of a view, the ids selected, and the
  flag. Ids are strings; both lists are JavaScript arrays, so order and repetition are
  kept.
\<close>

record table =
  allRecordIds :: "string list"
  selectedRecordIds :: "string list"
  allSelected :: bool

text \<open>What the script writes to the console.\<close>

datatype log_entry =
    Warn string
  | ParseError string

text \<open>
  The state the store reads and writes: the module-level map \<open>tableData\<close>, the
  session storage of the browser (keys and values are strings), and the console. The
  document is not part of the model: the store functions also tick checkboxes and show
  or hide buttons, from the state below and without writing to it.
\<close>

record store =
  tableData :: "string \<rightharpoonup> table"
  sessionStorage :: "string \<rightharpoonup> string"
  console :: "log_entry list"

text \<open>
  The two uses of \<open>JSON\<close> in the store are functions of the platform, parameters of
  the model: \<open>JSON.stringify\<close> on an array of strings, and
  \<open>JSON.parse(text).map(String)\<close>, which is \<open>None\<close> when \<open>JSON.parse\<close> raises, when
  its result has no \<open>map\<close>, or when \<open>String\<close> raises.
\<close>

record platform =
  JSON_stringify :: "string list \<Rightarrow> string"
  JSON_parse_map_String :: "string \<Rightarrow> string list option"

text \<open>
  The argument \<open>recordIds\<close> is the parsed \<open>data-record-ids\<close> attribute: an array of
  ids, each a number or a string, or some value that is no array.
\<close>

datatype js_id = IdNum int | IdStr string

datatype js_value = NotArray | Array "js_id list"

text \<open>
  \<open>String(x)\<close> on an id: a string is itself, an integer is printed in decimal (record
  keys are integers that a JavaScript number holds exactly).
\<close>

fun digits :: "nat \<Rightarrow> string" where
  "digits n =
     (if n < 10 then [char_of (48 + n)]
      else digits (n div 10) @ [char_of (48 + n mod 10)])"

fun js_String :: "js_id \<Rightarrow> string" where
  "js_String (IdStr s) = s"
| "js_String (IdNum n) = (if n < 0 then CHR ''-'' # digits (nat (- n)) else digits (nat n))"

text \<open>
  The list a view is given,
  \<^verbatim>\<open>recordIds && Array.isArray(recordIds) && recordIds.length ? recordIds.map(String) : []\<close>.
\<close>

definition record_id_strings :: "js_value \<Rightarrow> string list" where
  "record_id_strings recordIds =
     (case recordIds of
        NotArray \<Rightarrow> []
      | Array xs \<Rightarrow> if xs \<noteq> [] then map js_String xs else [])"

text \<open>The session-storage key of a view, \<^verbatim>\<open>`selectedRecordIds_${viewId}`\<close>.\<close>

definition storage_key :: "string \<Rightarrow> string" where
  "storage_key viewId = ''selectedRecordIds_'' @ viewId"

subsection \<open>Operations\<close>

text \<open>
  \<open>initializeRecordIds(recordIds, viewId)\<close>. An empty \<open>viewId\<close> is falsy: a warning
  and nothing else. The entry is replaced by a fresh one; only when the list of ids is
  not empty is the stored selection read, and only when the stored text is not empty
  (\<open>getItem\<close> gives \<open>null\<close> for a missing key) is it parsed. The assignment to
  \<open>selectedRecordIds\<close> inside \<open>try\<close> happens after the parse, so a parse that raises
  leaves the fresh entry, and the handler logs and empties the selection.
\<close>

definition initializeRecordIds :: "platform \<Rightarrow> js_value \<Rightarrow> string \<Rightarrow> store \<Rightarrow> store" where
  "initializeRecordIds P recordIds viewId st =
     (if viewId = [] then st\<lparr>console := console st @ [Warn ''No viewId provided'']\<rparr>
      else
        (let ids = record_id_strings recordIds;
             table = \<lparr>allRecordIds = ids, selectedRecordIds = [], allSelected = False\<rparr>
         in if ids \<noteq> [] then
              (case sessionStorage st (storage_key viewId) of
                 None \<Rightarrow> st\<lparr>tableData := (tableData st)(viewId \<mapsto> table)\<rparr>
               | Some storedSelections \<Rightarrow>
                   if storedSelections = [] then st\<lparr>tableData := (tableData st)(viewId \<mapsto> table)\<rparr>
                   else
                     (case JSON_parse_map_String P storedSelections of
                        Some sel \<Rightarrow>
                          st\<lparr>tableData := (tableData st)(viewId \<mapsto>
                               table\<lparr>selectedRecordIds := sel,
                                     allSelected := (length sel = length ids \<and>
                                                     list_all (\<lambda>id. id \<in> set sel) ids)\<rparr>)\<rparr>
                      | None \<Rightarrow>
                          st\<lparr>tableData := (tableData st)(viewId \<mapsto> table\<lparr>selectedRecordIds := []\<rparr>),
                             console := console st @ [ParseError viewId]\<rparr>))
            else st\<lparr>tableData := (tableData st)(viewId \<mapsto> table)\<rparr>))"

text \<open>\<open>selectAll(checked, viewId)\<close>.\<close>

definition selectAll :: "platform \<Rightarrow> bool \<Rightarrow> string \<Rightarrow> store \<Rightarrow> store" where
  "selectAll P checked viewId st =
     (if viewId = [] then st
      else
        (case tableData st viewId of
           None \<Rightarrow> st
         | Some table \<Rightarrow>
             (let table' = table\<lparr>allSelected := checked,
                                 selectedRecordIds := (if checked then allRecordIds table else [])\<rparr>
              in st\<lparr>tableData := (tableData st)(viewId \<mapsto> table'),
                    sessionStorage := (sessionStorage st)(storage_key viewId \<mapsto>
                                         JSON_stringify P (selectedRecordIds table'))\<rparr>)))"

text \<open>\<open>clearSelections(viewId)\<close>.\<close>

definition clearSelections :: "string \<Rightarrow> store \<Rightarrow> store" where
  "clearSelections viewId st =
     (if viewId = [] then st
      else
        (case tableData st viewId of
           None \<Rightarrow> st
         | Some table \<Rightarrow>
             st\<lparr>tableData := (tableData st)(viewId \<mapsto>
                    table\<lparr>selectedRecordIds := [], allSelected := False\<rparr>),
                sessionStorage := (sessionStorage st)(storage_key viewId := None)\<rparr>))"

text \<open>
  The \<open>change\<close> handler of a row checkbox (\<open>input[data-role='row-select']\<close>), the
  \<open>setRowSelected\<close> of the specification: \<open>viewId\<close> is the view of the checkbox,
  \<open>rid\<close> its value and \<open>checked\<close> its new state. The handler has no test of
  \<open>viewId\<close> of its own.
\<close>

definition row_select_change :: "platform \<Rightarrow> string \<Rightarrow> string \<Rightarrow> bool \<Rightarrow> store \<Rightarrow> store" where
  "row_select_change P viewId rid checked st =
     (case tableData st viewId of
        None \<Rightarrow> st
      | Some table \<Rightarrow>
          (let table' =
                 (if checked then
                    (if rid \<in> set (selectedRecordIds table) then table
                     else table\<lparr>selectedRecordIds := selectedRecordIds table @ [rid]\<rparr>)
                  else table\<lparr>selectedRecordIds := filter (\<lambda>selectedId. selectedId \<noteq> rid)
                                                        (selectedRecordIds table),
                              allSelected := False\<rparr>)
           in st\<lparr>tableData := (tableData st)(viewId \<mapsto> table'),
                 sessionStorage := (sessionStorage st)(storage_key viewId \<mapsto>
                                      JSON_stringify P (selectedRecordIds table'))\<rparr>))"

text \<open>\<open>selectedRecordIds(viewId)\<close>, the \<open>selectedIds\<close> of the specification.\<close>

definition selectedIds :: "string \<Rightarrow> store \<Rightarrow> string list" where
  "selectedIds viewId st =
     (case tableData st viewId of None \<Rightarrow> [] | Some table \<Rightarrow> selectedRecordIds table)"

text \<open>
  The flag and the list of a view, for statements (\<open>False\<close> and the empty list when
  the view is unknown).
\<close>

definition allRecordIdsOf :: "string \<Rightarrow> store \<Rightarrow> string list" where
  "allRecordIdsOf viewId st =
     (case tableData st viewId of None \<Rightarrow> [] | Some table \<Rightarrow> allRecordIds table)"

definition allSelectedOf :: "string \<Rightarrow> store \<Rightarrow> bool" where
  "allSelectedOf viewId st =
     (case tableData st viewId of None \<Rightarrow> False | Some table \<Rightarrow> allSelected table)"

text \<open>
  The \<open>htmx:afterSwap\<close> handler, for a swap that holds the data container of
  \<open>viewId\<close>. A swap triggered by the sentinel row is an infinite-scroll page: the rows
  of the response are given to \<open>processInfiniteScrollRows\<close>, which ticks the checkbox
  of each new row from \<open>selectedRecordIds\<close> and reorders the rows of the document; it
  writes neither \<open>tableData\<close> nor the session storage. Any other swap reads the
  \<open>data-record-ids\<close> attribute of the container and initializes the view again
  (\<open>Reload\<close> carries the attribute as parsed).
\<close>

datatype swap = InfiniteScroll "string list" | Reload js_value

definition processInfiniteScrollRows :: "string \<Rightarrow> string list \<Rightarrow> store \<Rightarrow> (string \<times> bool) list" where
  "processInfiniteScrollRows viewId newRows st =
     (case tableData st viewId of
        None \<Rightarrow> []
      | Some table \<Rightarrow> map (\<lambda>rid. (rid, rid \<in> set (selectedRecordIds table))) newRows)"

definition afterSwap :: "platform \<Rightarrow> string \<Rightarrow> swap \<Rightarrow> store \<Rightarrow> store" where
  "afterSwap P viewId sw st =
     (if viewId = [] then st
      else
        (case sw of
           InfiniteScroll newRows \<Rightarrow> st
         | Reload recordIds \<Rightarrow> initializeRecordIds P recordIds viewId st))"

subsection \<open>Sequences of events\<close>

datatype event =
    RowSelect string string bool
  | SelectAll string bool
  | Clear string
  | Swap string swap

fun step :: "platform \<Rightarrow> event \<Rightarrow> store \<Rightarrow> store" where
  "step P (RowSelect viewId rid checked) st = row_select_change P viewId rid checked st"
| "step P (SelectAll viewId checked) st = selectAll P checked viewId st"
| "step P (Clear viewId) st = clearSelections viewId st"
| "step P (Swap viewId sw) st = afterSwap P viewId sw st"

fun run :: "platform \<Rightarrow> event list \<Rightarrow> store \<Rightarrow> store" where
  "run P [] st = st"
| "run P (e # es) st = run P es (step P e st)"

text \<open>The actions of the user on the store: everything but a swap.\<close>

fun user_action :: "event \<Rightarrow> bool" where
  "user_action (Swap viewId sw) = False"
| "user_action e = True"

text \<open>The store of a page that has just been loaded, with a given session storage.\<close>

definition fresh :: "(string \<rightharpoonup> string) \<Rightarrow> store" where
  "fresh storage = \<lparr>tableData = Map.empty, sessionStorage = storage, console = []\<rparr>"

subsection \<open>A platform for arrays of string literals\<close>

text \<open>
  A concrete platform, to run the store on: \<open>stringify\<close> writes an array of strings as
  \<open>JSON.stringify\<close> does (no white space, the two-character escapes, \<^verbatim>\<open>\u00xx\<close> for
  the other control characters), and \<open>parse_strings\<close> reads such a text back. A
  character is a byte here, so an escape for a code above 255 is refused, and so is every
  text that is not an array of string literals; the theorems below are stated for every
  platform and use this one only to run examples.
\<close>

definition hexdigit :: "nat \<Rightarrow> char" where
  "hexdigit n = (if n < 10 then char_of (48 + n) else char_of (87 + n))"

definition unhex :: "char \<Rightarrow> nat option" where
  "unhex c =
     (let n = (of_char c :: nat)
      in if 48 \<le> n \<and> n \<le> 57 then Some (n - 48)
         else if 97 \<le> n \<and> n \<le> 102 then Some (n - 87)
         else if 65 \<le> n \<and> n \<le> 70 then Some (n - 55)
         else None)"

definition escape_char :: "char \<Rightarrow> string" where
  "escape_char c =
     (if c = CHR 0x22 then [CHR 0x5C, CHR 0x22]
      else if c = CHR 0x5C then [CHR 0x5C, CHR 0x5C]
      else if c = CHR 0x08 then [CHR 0x5C, CHR ''b'']
      else if c = CHR 0x0C then [CHR 0x5C, CHR ''f'']
      else if c = CHR 0x0A then [CHR 0x5C, CHR ''n'']
      else if c = CHR 0x0D then [CHR 0x5C, CHR ''r'']
      else if c = CHR 0x09 then [CHR 0x5C, CHR ''t'']
      else if (of_char c :: nat) < 32 then
        [CHR 0x5C, CHR ''u'', CHR ''0'', CHR ''0'', hexdigit (of_char c div 16), hexdigit (of_char c mod 16)]
      else [c])"

definition quote :: "string \<Rightarrow> string" where
  "quote s = CHR 0x22 # concat (map escape_char s) @ [CHR 0x22]"

fun items :: "string \<Rightarrow> string list \<Rightarrow> string" where
  "items x [] = quote x @ '']''"
| "items x (y # ys) = quote x @ '','' @ items y ys"

fun stringify :: "string list \<Rightarrow> string" where
  "stringify [] = ''[]''"
| "stringify (x # xs) = CHR ''['' # items x xs"

definition unescape :: "char \<Rightarrow> char option" where
  "unescape e =
     (if e = CHR 0x22 then Some (CHR 0x22)
      else if e = CHR 0x5C then Some (CHR 0x5C)
      else if e = CHR ''/'' then Some (CHR ''/'')
      else if e = CHR ''b'' then Some (CHR 0x08)
      else if e = CHR ''f'' then Some (CHR 0x0C)
      else if e = CHR ''n'' then Some (CHR 0x0A)
      else if e = CHR ''r'' then Some (CHR 0x0D)
      else if e = CHR ''t'' then Some (CHR 0x09)
      else None)"

definition hex4 :: "char \<Rightarrow> char \<Rightarrow> char \<Rightarrow> char \<Rightarrow> char option" where
  "hex4 h1 h2 h3 h4 =
     (case (unhex h1, unhex h2, unhex h3, unhex h4) of
        (Some a, Some b, Some c, Some d) \<Rightarrow>
          (let n = ((a * 16 + b) * 16 + c) * 16 + d
           in if n < 256 then Some (char_of n) else None)
      | _ \<Rightarrow> None)"

fun string_chars :: "string \<Rightarrow> (string \<times> string) option" where
  "string_chars [] = None"
| "string_chars (c # cs) =
     (if c = CHR 0x22 then Some ([], cs)
      else if c = CHR 0x5C then
        (case cs of
           [] \<Rightarrow> None
         | e # r \<Rightarrow>
             if e = CHR ''u'' then
               (case r of
                  h1 # h2 # h3 # h4 # r' \<Rightarrow>
                    (case hex4 h1 h2 h3 h4 of
                       None \<Rightarrow> None
                     | Some x \<Rightarrow>
                         (case string_chars r' of
                            None \<Rightarrow> None
                          | Some (s, rest) \<Rightarrow> Some (x # s, rest)))
                | _ \<Rightarrow> None)
             else
               (case unescape e of
                  None \<Rightarrow> None
                | Some x \<Rightarrow>
                    (case string_chars r of
                       None \<Rightarrow> None
                     | Some (s, rest) \<Rightarrow> Some (x # s, rest))))
      else if (of_char c :: nat) < 32 then None
      else
        (case string_chars cs of
           None \<Rightarrow> None
         | Some (s, rest) \<Rightarrow> Some (c # s, rest)))"

lemma string_chars_shorter:
  "string_chars s = Some (x, rest) \<Longrightarrow> length rest < length s"
proof (induction s arbitrary: x rest rule: string_chars.induct)
  case 1
  then show ?case by simp
next
  case (2 c cs)
  then show ?case
    by (fastforce split: if_splits list.splits option.splits prod.splits)
qed

function strings :: "string \<Rightarrow> string list option" where
  "strings s =
     (case s of
        [] \<Rightarrow> None
      | q # r \<Rightarrow>
          if q = CHR 0x22 then
            (case string_chars r of
               None \<Rightarrow> None
             | Some (x, rest) \<Rightarrow>
                 (case rest of
                    [] \<Rightarrow> None
                  | c # rest' \<Rightarrow>
                      if c = CHR '']'' then (if rest' = [] then Some [x] else None)
                      else if c = CHR '','' then
                        (case strings rest' of None \<Rightarrow> None | Some xs \<Rightarrow> Some (x # xs))
                      else None))
          else None)"
  by pat_completeness auto
termination
  by (relation "measure length") (auto dest: string_chars_shorter)

definition parse_strings :: "string \<Rightarrow> string list option" where
  "parse_strings s =
     (case s of
        [] \<Rightarrow> None
      | c # r \<Rightarrow>
          if c = CHR ''['' then (if r = '']'' then Some [] else strings r)
          else None)"



definition js :: platform where
  "js = \<lparr>JSON_stringify = stringify, JSON_parse_map_String = parse_strings\<rparr>"

text \<open>
  What the round trip claims need of a platform: the text of an array of strings is
  not empty, and reading it back gives the array.
\<close>

definition round_trips :: "platform \<Rightarrow> bool" where
  "round_trips P =
     (\<forall>xs. JSON_stringify P xs \<noteq> [] \<and> JSON_parse_map_String P (JSON_stringify P xs) = Some xs)"

subsection \<open>Notions used in the statements\<close>

text \<open>
  The selection \<open>initializeRecordIds\<close> reads back from a storage entry: nothing for a
  missing entry, an empty text or a text whose parse raises.
\<close>

fun rehydrated :: "platform \<Rightarrow> string option \<Rightarrow> string list" where
  "rehydrated P None = []"
| "rehydrated P (Some s) =
     (if s = [] then []
      else (case JSON_parse_map_String P s of None \<Rightarrow> [] | Some sel \<Rightarrow> sel))"

text \<open>
  No list of the store repeats an id: neither list of any view, and no selection that
  a storage entry of a view would give back.
\<close>

definition no_duplicates :: "platform \<Rightarrow> store \<Rightarrow> bool" where
  "no_duplicates P st =
     ((\<forall>viewId t. tableData st viewId = Some t \<longrightarrow>
          distinct (allRecordIds t) \<and> distinct (selectedRecordIds t)) \<and>
      (\<forall>viewId s xs. sessionStorage st (storage_key viewId) = Some s \<longrightarrow>
          JSON_parse_map_String P s = Some xs \<longrightarrow> distinct xs))"

text \<open>An event that gives a view a list of ids gives it one without repetition.\<close>

fun duplicate_free_ids :: "event \<Rightarrow> bool" where
  "duplicate_free_ids (Swap viewId (Reload recordIds)) = distinct (record_id_strings recordIds)"
| "duplicate_free_ids e = True"

text \<open>
  The storage entry of a known view gives back its selection; and the selection of a
  view covers its list: it is as long and holds each of its ids (the test that
  \<open>initializeRecordIds\<close> makes for \<open>allSelected\<close>).
\<close>

definition persisted :: "platform \<Rightarrow> string \<Rightarrow> store \<Rightarrow> bool" where
  "persisted P viewId st =
     (tableData st viewId \<noteq> None \<and>
      rehydrated P (sessionStorage st (storage_key viewId)) = selectedIds viewId st)"

definition covers :: "string \<Rightarrow> store \<Rightarrow> bool" where
  "covers viewId st =
     (length (selectedIds viewId st) = length (allRecordIdsOf viewId st) \<and>
      set (allRecordIdsOf viewId st) \<subseteq> set (selectedIds viewId st))"

text \<open>
  Two conditions on an event, for a view: its row checkbox, if it is one of the view,
  belongs to a record of the given list; and the list it gives the view, if it gives
  one, holds the given id.
\<close>

fun row_of_list :: "string \<Rightarrow> string list \<Rightarrow> event \<Rightarrow> bool" where
  "row_of_list viewId ids (RowSelect w rid checked) = (w = viewId \<longrightarrow> rid \<in> set ids)"
| "row_of_list viewId ids e = True"

fun keeps_record :: "string \<Rightarrow> string \<Rightarrow> event \<Rightarrow> bool" where
  "keeps_record viewId x (Swap w (Reload recordIds)) =
     (w = viewId \<longrightarrow> x \<in> set (record_id_strings recordIds))"
| "keeps_record viewId x e = True"

subsection \<open>Example states\<close>

text \<open>
  The view \<open>v1\<close> with the records 1, 2 and 3, on a page just loaded with an empty
  session storage; and the same view after the checkbox of record 2 has been ticked.
\<close>

definition v1_store :: store where
  "v1_store =
     initializeRecordIds js (Array [IdNum 1, IdNum 2, IdNum 3]) ''v1'' (fresh Map.empty)"

definition v1_two :: store where
  "v1_two = row_select_change js ''v1'' ''2'' True v1_store"

text \<open>
  A page just loaded whose session storage holds a selection for \<open>v1\<close>, and one whose
  entry for \<open>v1\<close> is no JSON text.
\<close>

definition stored_132 :: store where
  "stored_132 = fresh [storage_key ''v1'' \<mapsto> JSON_stringify js [''1'', ''3'', ''2'']]"

definition stored_garbage :: store where
  "stored_garbage = fresh [storage_key ''v1'' \<mapsto> ''not json'']"

section \<open>Properties of the platform instance\<close>

lemma unhex_hexdigit: "n < 16 \<Longrightarrow> unhex (hexdigit n) = Some n"
  by (auto simp: unhex_def hexdigit_def Let_def)

lemma hex4_low:
  assumes "(of_char c :: nat) < 32"
  shows "hex4 (CHR ''0'') (CHR ''0'') (hexdigit (of_char c div 16)) (hexdigit (of_char c mod 16)) = Some c"
proof -
  have a: "unhex (CHR ''0'') = Some 0" by (simp add: unhex_def)
  have b: "unhex (hexdigit (of_char c div 16)) = Some (of_char c div 16)"
    using assms by (intro unhex_hexdigit) simp
  have d: "unhex (hexdigit (of_char c mod 16)) = Some (of_char c mod 16)"
    by (intro unhex_hexdigit) simp
  show ?thesis using assms by (simp add: hex4_def a b d)
qed

lemma string_chars_escape:
  "string_chars (escape_char c @ t) =
     (case string_chars t of None \<Rightarrow> None | Some (s, rest) \<Rightarrow> Some (c # s, rest))"
  by (auto simp: escape_char_def unescape_def hex4_low)

lemma string_chars_quote:
  "string_chars (concat (map escape_char s) @ CHR 0x22 # t) = Some (s, t)"
  by (induction s) (simp_all add: string_chars_escape)

lemma strings_items: "strings (items x xs) = Some (x # xs)"
  by (induction xs arbitrary: x) (simp_all add: quote_def string_chars_quote)

lemma items_not_bracket: "items x xs \<noteq> '']''"
  by (cases xs) (simp_all add: quote_def)

lemma parse_stringify: "parse_strings (stringify xs) = Some xs"
  by (cases xs) (simp_all add: parse_strings_def strings_items items_not_bracket del: strings.simps)

lemma stringify_nonempty: "stringify xs \<noteq> []"
  by (cases xs) simp_all


lemma round_tripsD:
  "round_trips P \<Longrightarrow> JSON_parse_map_String P (JSON_stringify P xs) = Some xs"
  "round_trips P \<Longrightarrow> JSON_stringify P xs \<noteq> []"
  by (simp_all add: round_trips_def)

lemma js_round_trips: "round_trips js"
  by (simp add: round_trips_def js_def parse_stringify stringify_nonempty)

section \<open>The file name of a download\<close>

lemma startsWith_set: "startsWith p s \<Longrightarrow> set p \<subseteq> set s"
  unfolding startsWith_def by (metis set_take_subset)

text \<open>
  The quotes are removed from the name before the test for the prefix \<^verbatim>\<open>UTF-8''\<close>,
  so the test never succeeds and the decoder is never called: the name does not depend
  on it, whatever the header.
\<close>

lemma decoder_never_called: "extract_filename dec h = extract_filename dec' h"
proof -
  have "\<not> startsWith (''UTF-8'' @ [CHR 0x27, CHR 0x27])
            (filter (\<lambda>c. c \<noteq> CHR 0x27 \<and> c \<noteq> CHR 0x22) g)" for g
  proof
    assume "startsWith (''UTF-8'' @ [CHR 0x27, CHR 0x27])
              (filter (\<lambda>c. c \<noteq> CHR 0x27 \<and> c \<noteq> CHR 0x22) g)"
    from startsWith_set [OF this] show False by auto
  qed
  then show ?thesis
    by (simp add: extract_filename_def Let_def split: option.splits)
qed

lemma quoted_filename:
  "onload dec 200 (Some (''attachment; filename='' @ [CHR 0x22] @ ''a b.txt'' @ [CHR 0x22]))
   = SavedAs ''a b.txt''"
  by (simp add: onload_def extract_filename_def match_here_def startsWith_def group1_def
      quoted_def)

lemma no_filename: "onload dec 200 (Some ''attachment'') = SavedAs ''download''"
  by (simp add: onload_def extract_filename_def match_here_def startsWith_def)

text \<open>
  Claim C9: the file name of a download is parsed from the \<open>Content-Disposition\<close>
  header with the quotes removed, is the percent-decoded value for the extended form
  \<^verbatim>\<open>filename*=UTF-8''...\<close>, and is \<open>download\<close> when no name is parsed. The
  extended form is not decoded: for the header
  \<^verbatim>\<open>attachment; filename*=UTF-8''report%20final.txt\<close> the script saves the file as
  \<^verbatim>\<open>UTF-8report%20final.txt\<close>, whatever the decoder does, where the claim gives
  \<^verbatim>\<open>report final.txt\<close>.
\<close>

theorem extended_filename_kept_encoded:
  "onload decodeURIComponent 200
     (Some (''attachment; filename*=UTF-8'' @ [CHR 0x27, CHR 0x27] @ ''report%20final.txt''))
   = SavedAs ''UTF-8report%20final.txt''"
  by (simp add: onload_def extract_filename_def match_here_def startsWith_def group1_def
      quoted_def)

section \<open>Properties of the selection store\<close>

subsection \<open>Unknown views\<close>

text \<open>
  Claim C7: for a view with no entry in \<open>tableData\<close>, \<open>selectAll\<close>,
  \<open>clearSelections\<close> and the row handler return the state as it was (the map, the
  session storage and the console), and \<open>selectedIds\<close> is the empty list. The
  functions of the model are total: none of them has an error result.
\<close>

theorem unknown_view_noop:
  assumes "tableData st viewId = None"
  shows "selectAll P checked viewId st = st \<and>
         clearSelections viewId st = st \<and>
         row_select_change P viewId rid checked st = st \<and>
         selectedIds viewId st = []"
  using assms
  by (simp add: selectAll_def clearSelections_def row_select_change_def selectedIds_def)

theorem unknown_view_noop_witness:
  "tableData v1_two ''v9'' = None \<and>
   selectAll js True ''v9'' v1_two = v1_two \<and>
   clearSelections ''v9'' v1_two = v1_two \<and>
   row_select_change js ''v9'' ''1'' True v1_two = v1_two \<and>
   selectedIds ''v9'' v1_two = []"
proof -
  have h: "tableData v1_two ''v9'' = None" by code_simp
  show ?thesis using h unknown_view_noop [OF h, of js True "''1''"] by simp
qed

subsection \<open>Views and their storage keys\<close>

lemma storage_key_inj [simp]: "storage_key v = storage_key w \<longleftrightarrow> v = w"
  by (simp add: storage_key_def)

subsection \<open>The row handler\<close>

lemma row_select_change_known:
  assumes "tableData st viewId = Some t"
  shows "tableData (row_select_change P viewId rid checked st) viewId =
           Some (if checked then
                   (if rid \<in> set (selectedRecordIds t) then t
                    else t\<lparr>selectedRecordIds := selectedRecordIds t @ [rid]\<rparr>)
                 else t\<lparr>selectedRecordIds := filter (\<lambda>x. x \<noteq> rid) (selectedRecordIds t),
                        allSelected := False\<rparr>)"
  using assms by (simp add: row_select_change_def Let_def)

lemma row_select_change_member:
  assumes "tableData st viewId = Some t"
  shows "x \<in> set (selectedIds viewId (row_select_change P viewId rid checked st)) \<longleftrightarrow>
           (if x = rid then checked else x \<in> set (selectedRecordIds t))"
  using assms by (auto simp: selectedIds_def row_select_change_known)

lemma row_select_change_persists:
  assumes "tableData st viewId = Some t"
  shows "sessionStorage (row_select_change P viewId rid checked st) (storage_key viewId) =
           Some (JSON_stringify P (selectedIds viewId (row_select_change P viewId rid checked st)))"
  using assms by (simp add: row_select_change_def selectedIds_def Let_def)

lemma row_calls_member:
  assumes "tableData st viewId = Some t"
  shows "x \<in> set (selectedIds viewId (run P (map (\<lambda>(rid, c). RowSelect viewId rid c) calls) st)) \<longleftrightarrow>
           (case map_of (rev calls) x of Some b \<Rightarrow> b | None \<Rightarrow> x \<in> set (selectedRecordIds t))"
  using assms
proof (induction calls arbitrary: st t)
  case Nil
  then show ?case by (simp add: selectedIds_def)
next
  case (Cons c calls)
  obtain rid b where c: "c = (rid, b)" by (cases c)
  let ?st = "row_select_change P viewId rid b st"
  obtain t' where t': "tableData ?st viewId = Some t'"
    using Cons.prems by (simp add: row_select_change_known)
  have sel: "x \<in> set (selectedRecordIds t') \<longleftrightarrow> (if x = rid then b else x \<in> set (selectedRecordIds t))"
    using row_select_change_member [OF Cons.prems, of x P rid b] t' by (simp add: selectedIds_def)
  show ?case
    using Cons.IH [OF t'] sel
    by (simp add: c map_add_def split: option.splits)
qed

text \<open>
  Claim C4: after any sequence of calls of the row handler on a known view, an id is
  selected exactly when the last call for it ticked it, and an id no call names is
  selected exactly when it was before; so from an empty selection the selected ids are
  those last ticked, and unticking and ticking an id again (or the reverse) gives the
  set of ids back. A call with \<open>checked\<close> adds the id, a call without removes it and
  clears \<open>allSelected\<close>, and each call writes the selection to the session storage.
\<close>

theorem row_selection_tracks_last_call:
  assumes "tableData st viewId = Some t"
  shows "(\<forall>x. x \<in> set (selectedIds viewId (run P (map (\<lambda>(rid, c). RowSelect viewId rid c) calls) st)) \<longleftrightarrow>
              (case map_of (rev calls) x of Some b \<Rightarrow> b | None \<Rightarrow> x \<in> set (selectedRecordIds t))) \<and>
         (selectedRecordIds t = [] \<longrightarrow>
            set (selectedIds viewId (run P (map (\<lambda>(rid, c). RowSelect viewId rid c) calls) st)) =
              {x. map_of (rev calls) x = Some True}) \<and>
         set (selectedIds viewId
                (run P [RowSelect viewId rid (rid \<notin> set (selectedRecordIds t)),
                        RowSelect viewId rid (rid \<in> set (selectedRecordIds t))] st)) =
           set (selectedRecordIds t) \<and>
         set (selectedIds viewId (row_select_change P viewId rid True st)) =
           insert rid (set (selectedRecordIds t)) \<and>
         set (selectedIds viewId (row_select_change P viewId rid False st)) =
           set (selectedRecordIds t) - {rid} \<and>
         allSelectedOf viewId (row_select_change P viewId rid True st) = allSelected t \<and>
         allSelectedOf viewId (row_select_change P viewId rid False st) = False \<and>
         sessionStorage (row_select_change P viewId rid checked st) (storage_key viewId) =
           Some (JSON_stringify P (selectedIds viewId (row_select_change P viewId rid checked st)))"
proof -
  note m = row_calls_member [OF assms, of _ P]
  have 1: "\<forall>x. x \<in> set (selectedIds viewId (run P (map (\<lambda>(rid, c). RowSelect viewId rid c) calls) st)) \<longleftrightarrow>
              (case map_of (rev calls) x of Some b \<Rightarrow> b | None \<Rightarrow> x \<in> set (selectedRecordIds t))"
    using m by blast
  have 2: "selectedRecordIds t = [] \<longrightarrow>
            set (selectedIds viewId (run P (map (\<lambda>(rid, c). RowSelect viewId rid c) calls) st)) =
              {x. map_of (rev calls) x = Some True}"
  proof
    assume e: "selectedRecordIds t = []"
    have "x \<in> set (selectedIds viewId (run P (map (\<lambda>(rid, c). RowSelect viewId rid c) calls) st)) \<longleftrightarrow>
            map_of (rev calls) x = Some True" for x
      using m [of x calls] e by (cases "map_of (rev calls) x") auto
    then show "set (selectedIds viewId (run P (map (\<lambda>(rid, c). RowSelect viewId rid c) calls) st)) =
              {x. map_of (rev calls) x = Some True}"
      by auto
  qed
  have 3: "set (selectedIds viewId
                (run P [RowSelect viewId rid (rid \<notin> set (selectedRecordIds t)),
                        RowSelect viewId rid (rid \<in> set (selectedRecordIds t))] st)) =
           set (selectedRecordIds t)"
  proof -
    have "x \<in> set (selectedIds viewId (run P [RowSelect viewId rid (\<not> b), RowSelect viewId rid b] st)) \<longleftrightarrow>
            (if x = rid then b else x \<in> set (selectedRecordIds t))" for x b
      using m [of x "[(rid, \<not> b), (rid, b)]"] by simp
    then have "x \<in> set (selectedIds viewId
                (run P [RowSelect viewId rid (rid \<notin> set (selectedRecordIds t)),
                        RowSelect viewId rid (rid \<in> set (selectedRecordIds t))] st)) \<longleftrightarrow>
           x \<in> set (selectedRecordIds t)" for x
      by (cases "x = rid") simp_all
    then show ?thesis by blast
  qed
  have 4: "set (selectedIds viewId (row_select_change P viewId rid True st)) =
           insert rid (set (selectedRecordIds t))"
    by (auto simp: row_select_change_member [OF assms] split: if_splits)
  have 5: "set (selectedIds viewId (row_select_change P viewId rid False st)) =
           set (selectedRecordIds t) - {rid}"
    by (auto simp: row_select_change_member [OF assms] split: if_splits)
  have 6: "allSelectedOf viewId (row_select_change P viewId rid True st) = allSelected t"
          "allSelectedOf viewId (row_select_change P viewId rid False st) = False"
    using assms by (simp_all add: allSelectedOf_def row_select_change_known)
  show ?thesis
    by (intro conjI 1 2 3 4 5 6 row_select_change_persists [OF assms])
qed


theorem row_selection_tracks_last_call_witness:
  "tableData v1_store ''v1'' =
     Some \<lparr>allRecordIds = [''1'', ''2'', ''3''], selectedRecordIds = [], allSelected = False\<rparr> \<and>
   set (selectedIds ''v1''
     (run js (map (\<lambda>(rid, c). RowSelect ''v1'' rid c)
        [(''2'', True), (''3'', True), (''2'', False)]) v1_store)) =
     {x. map_of (rev [(''2'', True), (''3'', True), (''2'', False)]) x = Some True} \<and>
   selectedIds ''v1''
     (run js (map (\<lambda>(rid, c). RowSelect ''v1'' rid c)
        [(''2'', True), (''3'', True), (''2'', False)]) v1_store) = [''3'']"
proof -
  have h: "tableData v1_store ''v1'' =
     Some \<lparr>allRecordIds = [''1'', ''2'', ''3''], selectedRecordIds = [], allSelected = False\<rparr>"
    by code_simp
  have e: "selectedIds ''v1''
     (run js (map (\<lambda>(rid, c). RowSelect ''v1'' rid c)
        [(''2'', True), (''3'', True), (''2'', False)]) v1_store) = [''3'']"
    by code_simp
  show ?thesis
    using h e row_selection_tracks_last_call
      [OF h, of js "[(''2'', True), (''3'', True), (''2'', False)]"]
    by simp
qed

subsection \<open>Select all and clear\<close>

text \<open>
  Every entry of \<open>tableData\<close> is made by \<open>initializeRecordIds\<close>, which refuses the
  empty view id: a known view has an id that is not empty, in every state a page can
  reach.
\<close>

lemma empty_view_unknown_step:
  "tableData st [] = None \<Longrightarrow> tableData (step P e st) [] = None"
proof (cases e)
  case (Swap viewId sw)
  assume "tableData st [] = None"
  then show ?thesis
    using Swap
    by (cases sw) (auto simp: afterSwap_def initializeRecordIds_def Let_def split: option.splits)
qed (auto simp: row_select_change_def selectAll_def clearSelections_def Let_def split: option.splits)

lemma empty_view_unknown:
  "tableData st [] = None \<Longrightarrow> tableData (run P es st) [] = None"
  by (induction es arbitrary: st) (simp_all add: empty_view_unknown_step)


text \<open>
  Claim C5: on a known view, whatever its state, \<open>selectAll\<close> with \<open>true\<close> makes the
  selection the list of all ids of the view and sets \<open>allSelected\<close>; with \<open>false\<close>
  it empties the selection and clears the flag; both write the new selection to the
  session storage.
\<close>

theorem selectAll_sets_selection:
  assumes "viewId \<noteq> []" and "tableData st viewId = Some t"
  shows "selectedIds viewId (selectAll P True viewId st) = allRecordIds t \<and>
         allSelectedOf viewId (selectAll P True viewId st) = True \<and>
         sessionStorage (selectAll P True viewId st) (storage_key viewId)
           = Some (JSON_stringify P (allRecordIds t)) \<and>
         selectedIds viewId (selectAll P False viewId st) = [] \<and>
         allSelectedOf viewId (selectAll P False viewId st) = False \<and>
         sessionStorage (selectAll P False viewId st) (storage_key viewId)
           = Some (JSON_stringify P []) \<and>
         allRecordIdsOf viewId (selectAll P checked viewId st) = allRecordIds t"
  using assms
  by (simp add: selectAll_def selectedIds_def allSelectedOf_def allRecordIdsOf_def Let_def)

theorem selectAll_sets_selection_witness:
  "tableData v1_two ''v1'' =
     Some \<lparr>allRecordIds = [''1'', ''2'', ''3''], selectedRecordIds = [''2''],
           allSelected = False\<rparr> \<and>
   selectedIds ''v1'' (selectAll js True ''v1'' v1_two) = [''1'', ''2'', ''3''] \<and>
   allSelectedOf ''v1'' (selectAll js True ''v1'' v1_two) = True \<and>
   sessionStorage (selectAll js True ''v1'' v1_two) (storage_key ''v1'') =
     Some (JSON_stringify js [''1'', ''2'', ''3'']) \<and>
   selectedIds ''v1'' (selectAll js False ''v1'' v1_two) = [] \<and>
   allSelectedOf ''v1'' (selectAll js False ''v1'' v1_two) = False \<and>
   sessionStorage (selectAll js False ''v1'' v1_two) (storage_key ''v1'') = Some ''[]''"
proof -
  have h: "tableData v1_two ''v1'' =
     Some \<lparr>allRecordIds = [''1'', ''2'', ''3''], selectedRecordIds = [''2''],
           allSelected = False\<rparr>"
    by code_simp
  have s: "JSON_stringify js [] = ''[]''"
    by code_simp
  show ?thesis
    using h s selectAll_sets_selection [OF _ h, of js] by simp
qed

text \<open>
  Claim C6: on a known view, whatever its state, \<open>clearSelections\<close> leaves an empty
  selection and a cleared flag, and removes the entry of the view from the session
  storage.
\<close>

theorem clear_empties_selection:
  assumes "viewId \<noteq> []" and "tableData st viewId = Some t"
  shows "selectedIds viewId (clearSelections viewId st) = [] \<and>
         allSelectedOf viewId (clearSelections viewId st) = False \<and>
         sessionStorage (clearSelections viewId st) (storage_key viewId) = None \<and>
         allRecordIdsOf viewId (clearSelections viewId st) = allRecordIds t"
  using assms
  by (simp add: clearSelections_def selectedIds_def allSelectedOf_def allRecordIdsOf_def)


theorem clear_empties_selection_witness:
  "tableData v1_two ''v1'' =
     Some \<lparr>allRecordIds = [''1'', ''2'', ''3''], selectedRecordIds = [''2''],
           allSelected = False\<rparr> \<and>
   sessionStorage v1_two (storage_key ''v1'') = Some (JSON_stringify js [''2'']) \<and>
   selectedIds ''v1'' (clearSelections ''v1'' v1_two) = [] \<and>
   allSelectedOf ''v1'' (clearSelections ''v1'' v1_two) = False \<and>
   sessionStorage (clearSelections ''v1'' v1_two) (storage_key ''v1'') = None"
proof -
  have h: "tableData v1_two ''v1'' =
     Some \<lparr>allRecordIds = [''1'', ''2'', ''3''], selectedRecordIds = [''2''],
           allSelected = False\<rparr>"
    by code_simp
  have s: "sessionStorage v1_two (storage_key ''v1'') = Some (JSON_stringify js [''2''])"
    by code_simp
  show ?thesis
    using h s clear_empties_selection [OF _ h] by simp
qed

subsection \<open>Initialization\<close>

lemma initialize_other:
  "sessionStorage (initializeRecordIds P recordIds viewId st) = sessionStorage st"
  "w \<noteq> viewId \<Longrightarrow> tableData (initializeRecordIds P recordIds viewId st) w = tableData st w"
  by (simp_all add: initializeRecordIds_def Let_def split: option.splits)

lemma initialize_table:
  assumes "viewId \<noteq> []"
  shows "tableData (initializeRecordIds P recordIds viewId st) viewId =
           Some \<lparr>allRecordIds = record_id_strings recordIds,
                 selectedRecordIds =
                   (if record_id_strings recordIds = [] then []
                    else rehydrated P (sessionStorage st (storage_key viewId))),
                 allSelected =
                   (record_id_strings recordIds \<noteq> [] \<and>
                    length (rehydrated P (sessionStorage st (storage_key viewId))) =
                      length (record_id_strings recordIds) \<and>
                    set (record_id_strings recordIds) \<subseteq>
                      set (rehydrated P (sessionStorage st (storage_key viewId))))\<rparr>"
  using assms
  by (auto simp: initializeRecordIds_def Let_def list_all_iff split: option.splits)

lemma initialize_empty_view:
  "initializeRecordIds P recordIds [] st = st\<lparr>console := console st @ [Warn ''No viewId provided'']\<rparr>"
  by (simp add: initializeRecordIds_def)

text \<open>
  Claim C1, as amended: for a view id that is not empty, \<open>initializeRecordIds\<close>
  replaces the entry of the view by the given list (each id as a string) with an empty
  selection and a cleared flag. When that list is not empty, the selection is then read
  back from the storage entry of the view (when there is one, not empty, that parses),
  and \<open>allSelected\<close> is true exactly when the stored selection is as long as the list
  and holds each of its ids. When the list is empty nothing is read back. The session
  storage and the other views are left as they were.
\<close>

theorem initialize_resets_then_rehydrates:
  assumes "viewId \<noteq> []"
  shows "allRecordIdsOf viewId (initializeRecordIds P recordIds viewId st) =
           record_id_strings recordIds \<and>
         (record_id_strings recordIds = [] \<longrightarrow>
            selectedIds viewId (initializeRecordIds P recordIds viewId st) = [] \<and>
            \<not> allSelectedOf viewId (initializeRecordIds P recordIds viewId st)) \<and>
         (record_id_strings recordIds \<noteq> [] \<longrightarrow>
            (case sessionStorage st (storage_key viewId) of
               None \<Rightarrow>
                 selectedIds viewId (initializeRecordIds P recordIds viewId st) = [] \<and>
                 \<not> allSelectedOf viewId (initializeRecordIds P recordIds viewId st)
             | Some s \<Rightarrow>
                 (case (if s = [] then None else JSON_parse_map_String P s) of
                    None \<Rightarrow>
                      selectedIds viewId (initializeRecordIds P recordIds viewId st) = [] \<and>
                      \<not> allSelectedOf viewId (initializeRecordIds P recordIds viewId st)
                  | Some sel \<Rightarrow>
                      selectedIds viewId (initializeRecordIds P recordIds viewId st) = sel \<and>
                      (allSelectedOf viewId (initializeRecordIds P recordIds viewId st) \<longleftrightarrow>
                         length sel = length (record_id_strings recordIds) \<and>
                         set (record_id_strings recordIds) \<subseteq> set sel)))) \<and>
         sessionStorage (initializeRecordIds P recordIds viewId st) = sessionStorage st \<and>
         (\<forall>w. w \<noteq> viewId \<longrightarrow>
            tableData (initializeRecordIds P recordIds viewId st) w = tableData st w)"
  by (auto simp: initialize_table [OF assms] initialize_other allRecordIdsOf_def selectedIds_def
      allSelectedOf_def split: option.splits)

theorem initialize_resets_then_rehydrates_witness:
  "sessionStorage stored_132 (storage_key ''v1'') = Some (JSON_stringify js [''1'', ''3'', ''2'']) \<and>
   allRecordIdsOf ''v1''
     (initializeRecordIds js (Array [IdNum 1, IdNum 2, IdNum 3]) ''v1'' stored_132) =
     [''1'', ''2'', ''3''] \<and>
   selectedIds ''v1''
     (initializeRecordIds js (Array [IdNum 1, IdNum 2, IdNum 3]) ''v1'' stored_132) =
     [''1'', ''3'', ''2''] \<and>
   allSelectedOf ''v1''
     (initializeRecordIds js (Array [IdNum 1, IdNum 2, IdNum 3]) ''v1'' stored_132)"
proof -
  have r: "record_id_strings (Array [IdNum 1, IdNum 2, IdNum 3]) = [''1'', ''2'', ''3'']"
    by code_simp
  have s: "sessionStorage stored_132 (storage_key ''v1'') =
             Some (JSON_stringify js [''1'', ''3'', ''2''])"
    by code_simp
  have p: "JSON_parse_map_String js (JSON_stringify js [''1'', ''3'', ''2'']) =
             Some [''1'', ''3'', ''2'']"
       "JSON_stringify js [''1'', ''3'', ''2''] \<noteq> []"
    using js_round_trips by (simp_all add: round_tripsD)
  show ?thesis
    using initialize_resets_then_rehydrates
      [of "''v1''" js "Array [IdNum 1, IdNum 2, IdNum 3]" stored_132]
    by (simp add: r s p)
qed

text \<open>
  The claim as it was stated fails for an empty list of ids. The stored selection
  \<open>[]\<close> is as long as the empty list and holds each of its ids, and the flag stays
  false; and a stored selection is not read back. It fails for the empty view id too,
  which gets no entry.
\<close>

theorem initialize_empty_list_counterexample:
  "tableData (initializeRecordIds js (Array [IdNum 1]) [] (fresh Map.empty)) [] = None \<and>
   record_id_strings (Array []) = [] \<and>
   JSON_parse_map_String js ''[]'' = Some [] \<and>
   allSelectedOf ''v1''
     (initializeRecordIds js (Array []) ''v1'' (fresh [storage_key ''v1'' \<mapsto> ''[]''])) = False \<and>
   JSON_parse_map_String js (JSON_stringify js [''2'']) = Some [''2''] \<and>
   selectedIds ''v1''
     (initializeRecordIds js (Array []) ''v1''
        (fresh [storage_key ''v1'' \<mapsto> JSON_stringify js [''2'']])) = []"
  by code_simp

text \<open>
  Claim C8, as amended: when the storage entry of the view does not parse,
  \<open>initializeRecordIds\<close> returns a state (it has no error result) in which the view
  has the given list, an empty selection and a cleared flag: the stored data is not
  used. The parse is tried when the list of ids and the stored text are not empty, and
  its failure is then caught and logged on the console; otherwise nothing is logged.
  The text stays in the session storage.
\<close>

theorem malformed_storage_resets:
  assumes "viewId \<noteq> []"
    and "sessionStorage st (storage_key viewId) = Some s"
    and "JSON_parse_map_String P s = None"
  shows "tableData (initializeRecordIds P recordIds viewId st) viewId =
           Some \<lparr>allRecordIds = record_id_strings recordIds, selectedRecordIds = [],
                 allSelected = False\<rparr> \<and>
         selectedIds viewId (initializeRecordIds P recordIds viewId st) = [] \<and>
         allSelectedOf viewId (initializeRecordIds P recordIds viewId st) = False \<and>
         console (initializeRecordIds P recordIds viewId st) =
           (if record_id_strings recordIds \<noteq> [] \<and> s \<noteq> []
            then console st @ [ParseError viewId] else console st) \<and>
         sessionStorage (initializeRecordIds P recordIds viewId st) = sessionStorage st"
  using assms
  by (simp add: initializeRecordIds_def Let_def selectedIds_def allSelectedOf_def)


theorem malformed_storage_resets_witness:
  "sessionStorage stored_garbage (storage_key ''v1'') = Some ''not json'' \<and>
   JSON_parse_map_String js ''not json'' = None \<and>
   selectedIds ''v1''
     (initializeRecordIds js (Array [IdNum 1, IdNum 2, IdNum 3]) ''v1'' stored_garbage) = [] \<and>
   allSelectedOf ''v1''
     (initializeRecordIds js (Array [IdNum 1, IdNum 2, IdNum 3]) ''v1'' stored_garbage) = False \<and>
   console (initializeRecordIds js (Array [IdNum 1, IdNum 2, IdNum 3]) ''v1'' stored_garbage) =
     [ParseError ''v1'']"
proof -
  have r: "record_id_strings (Array [IdNum 1, IdNum 2, IdNum 3]) = [''1'', ''2'', ''3'']"
    by code_simp
  have s: "sessionStorage stored_garbage (storage_key ''v1'') = Some ''not json''"
    by code_simp
  have p: "JSON_parse_map_String js ''not json'' = None"
    by code_simp
  have c: "console stored_garbage = []"
    by code_simp
  show ?thesis
    using malformed_storage_resets [OF _ s p, of "Array [IdNum 1, IdNum 2, IdNum 3]"]
    by (simp add: r s p c)
qed

text \<open>
  The claim as it was stated fails where the entry is not parsed at all: nothing is
  logged for a view with an empty list of ids, nor for an entry that is the empty
  text, which is no JSON text either.
\<close>

theorem malformed_not_logged_counterexample:
  "JSON_parse_map_String js ''not json'' = None \<and>
   console (initializeRecordIds js (Array []) ''v1'' stored_garbage) = [] \<and>
   JSON_parse_map_String js [] = None \<and>
   console (initializeRecordIds js (Array [IdNum 1, IdNum 2, IdNum 3]) ''v1''
              (fresh [storage_key ''v1'' \<mapsto> []])) = []"
  by code_simp

subsection \<open>Lists without repetition\<close>

lemma no_duplicates_row:
  assumes "round_trips P" and "no_duplicates P st"
  shows "no_duplicates P (row_select_change P viewId rid checked st)"
proof (cases "tableData st viewId")
  case None
  then show ?thesis using assms by (simp add: row_select_change_def)
next
  case (Some t)
  have d: "distinct (allRecordIds t)" "distinct (selectedRecordIds t)"
    using assms(2) Some by (auto simp: no_duplicates_def)
  show ?thesis
    using assms(2) d Some
    by (auto simp: no_duplicates_def row_select_change_def Let_def round_tripsD [OF assms(1)])
qed

lemma no_duplicates_selectAll:
  assumes "round_trips P" and "no_duplicates P st"
  shows "no_duplicates P (selectAll P checked viewId st)"
proof (cases "tableData st viewId")
  case None
  then show ?thesis using assms by (simp add: selectAll_def)
next
  case (Some t)
  have d: "distinct (allRecordIds t)" "distinct (selectedRecordIds t)"
    using assms(2) Some by (auto simp: no_duplicates_def)
  show ?thesis
    using assms(2) d Some
    by (auto simp: no_duplicates_def selectAll_def Let_def round_tripsD [OF assms(1)])
qed

lemma no_duplicates_clear:
  assumes "no_duplicates P st"
  shows "no_duplicates P (clearSelections viewId st)"
proof (cases "tableData st viewId")
  case None
  then show ?thesis using assms by (simp add: clearSelections_def)
next
  case (Some t)
  have d: "distinct (allRecordIds t)"
    using assms Some by (auto simp: no_duplicates_def)
  show ?thesis
    using assms d Some
    by (auto simp: no_duplicates_def clearSelections_def)
qed

lemma no_duplicates_initialize:
  assumes "no_duplicates P st" and "distinct (record_id_strings recordIds)"
  shows "no_duplicates P (initializeRecordIds P recordIds viewId st)"
  using assms
  by (auto simp: no_duplicates_def initializeRecordIds_def Let_def split: option.splits)

lemma no_duplicates_step:
  assumes "round_trips P" and "no_duplicates P st" and "duplicate_free_ids e"
  shows "no_duplicates P (step P e st)"
proof (cases e)
  case (Swap viewId sw)
  then show ?thesis
    using assms by (cases sw) (simp_all add: afterSwap_def no_duplicates_initialize)
qed (use assms in \<open>simp_all add: no_duplicates_row no_duplicates_selectAll no_duplicates_clear\<close>)

lemma no_duplicates_run:
  assumes "round_trips P" and "no_duplicates P st" and "list_all duplicate_free_ids es"
  shows "no_duplicates P (run P es st)"
  using assms(2,3)
  by (induction es arbitrary: st) (simp_all add: no_duplicates_step [OF assms(1)])

lemma user_operations_keep_distinct:
  "distinct (selectedIds v s) \<Longrightarrow> distinct (selectedIds v (row_select_change P w rid c s))"
  "distinct (selectedIds v s) \<Longrightarrow> distinct (allRecordIdsOf w s) \<Longrightarrow>
     distinct (selectedIds v (selectAll P c w s))"
  "distinct (selectedIds v s) \<Longrightarrow> distinct (selectedIds v (clearSelections w s))"
  by (auto simp: selectedIds_def allRecordIdsOf_def row_select_change_def selectAll_def
      clearSelections_def Let_def split: option.splits)

text \<open>
  Claim C10: no operation of the store brings a repeated id into a selection. On a
  platform whose JSON round trip holds, a store without repetition (in the lists of
  its views and in what its storage entries give back) stays so under every sequence
  of row selections, select-all, clears and swaps that give duplicate-free lists.
  Operation by operation, in any state \<open>s\<close>: ticking an id that is already selected
  leaves the selection as it is; the row handler and \<open>clearSelections\<close> keep a
  selection without repetition so; and \<open>selectAll\<close> does when the list it copies has
  no repetition.
\<close>

theorem selection_stays_duplicate_free:
  assumes "round_trips P" and "no_duplicates P st" and "list_all duplicate_free_ids es"
  shows "no_duplicates P (run P es st) \<and>
         (rid \<in> set (selectedIds viewId s) \<longrightarrow>
            selectedIds viewId (row_select_change P viewId rid True s) = selectedIds viewId s) \<and>
         (distinct (selectedIds viewId s) \<longrightarrow>
            distinct (selectedIds viewId (row_select_change P w rid checked s))) \<and>
         (distinct (selectedIds viewId s) \<and> distinct (allRecordIdsOf w s) \<longrightarrow>
            distinct (selectedIds viewId (selectAll P checked w s))) \<and>
         (distinct (selectedIds viewId s) \<longrightarrow>
            distinct (selectedIds viewId (clearSelections w s)))"
proof -
  have "selectedIds viewId (row_select_change P viewId rid True s) = selectedIds viewId s"
    if "rid \<in> set (selectedIds viewId s)"
    using that
    by (cases "tableData s viewId") (simp_all add: selectedIds_def row_select_change_known)
  then show ?thesis
    using no_duplicates_run [OF assms] user_operations_keep_distinct [of viewId s]
    by blast
qed

theorem selection_stays_duplicate_free_witness:
  "no_duplicates js (fresh Map.empty) \<and>
   list_all duplicate_free_ids
     [Swap ''v1'' (Reload (Array [IdNum 1, IdNum 2, IdNum 3])),
      RowSelect ''v1'' ''2'' True, RowSelect ''v1'' ''2'' True, SelectAll ''v1'' True] \<and>
   no_duplicates js
     (run js [Swap ''v1'' (Reload (Array [IdNum 1, IdNum 2, IdNum 3])),
              RowSelect ''v1'' ''2'' True, RowSelect ''v1'' ''2'' True, SelectAll ''v1'' True]
        (fresh Map.empty)) \<and>
   selectedIds ''v1''
     (run js [Swap ''v1'' (Reload (Array [IdNum 1, IdNum 2, IdNum 3])),
              RowSelect ''v1'' ''2'' True, RowSelect ''v1'' ''2'' True]
        (fresh Map.empty)) = [''2'']"
proof -
  have a: "no_duplicates js (fresh Map.empty)"
    by (simp add: no_duplicates_def fresh_def)
  have b: "list_all duplicate_free_ids
     [Swap ''v1'' (Reload (Array [IdNum 1, IdNum 2, IdNum 3])),
      RowSelect ''v1'' ''2'' True, RowSelect ''v1'' ''2'' True, SelectAll ''v1'' True]"
    by code_simp
  have c: "selectedIds ''v1''
     (run js [Swap ''v1'' (Reload (Array [IdNum 1, IdNum 2, IdNum 3])),
              RowSelect ''v1'' ''2'' True, RowSelect ''v1'' ''2'' True]
        (fresh Map.empty)) = [''2'']"
    by code_simp
  show ?thesis
    using a b c selection_stays_duplicate_free [OF js_round_trips a b] by simp
qed

subsection \<open>Reloading a view\<close>

lemmas view_defs = selectedIds_def allSelectedOf_def allRecordIdsOf_def

lemma initialize_view:
  assumes "viewId \<noteq> []" and "record_id_strings recordIds \<noteq> []"
  shows "selectedIds viewId (initializeRecordIds P recordIds viewId st) =
           rehydrated P (sessionStorage st (storage_key viewId))"
    and "allRecordIdsOf viewId (initializeRecordIds P recordIds viewId st) =
           record_id_strings recordIds"
    and "allSelectedOf viewId (initializeRecordIds P recordIds viewId st) \<longleftrightarrow>
           length (rehydrated P (sessionStorage st (storage_key viewId))) =
             length (record_id_strings recordIds) \<and>
           set (record_id_strings recordIds) \<subseteq>
             set (rehydrated P (sessionStorage st (storage_key viewId)))"
  using assms by (simp_all add: view_defs initialize_table)

lemma persisted_initialize:
  assumes "viewId \<noteq> []" and "record_id_strings recordIds \<noteq> []"
  shows "persisted P viewId (initializeRecordIds P recordIds viewId st)"
  using assms
  by (simp add: persisted_def initialize_view initialize_other initialize_table)

lemma step_other_view:
  assumes "user_action e" and "\<And>rid c. e \<noteq> RowSelect viewId rid c"
    and "\<And>c. e \<noteq> SelectAll viewId c" and "e \<noteq> Clear viewId"
  shows "tableData (step P e st) viewId = tableData st viewId"
    and "sessionStorage (step P e st) (storage_key viewId) = sessionStorage st (storage_key viewId)"
  using assms
  by (cases e; auto simp: row_select_change_def selectAll_def clearSelections_def Let_def
      split: option.splits)+

lemma persisted_step:
  assumes "round_trips P" and "persisted P viewId st" and "user_action e"
  shows "persisted P viewId (step P e st)"
proof -
  obtain t where t: "tableData st viewId = Some t"
    using assms(2) by (auto simp: persisted_def)
  consider (row) rid c where "e = RowSelect viewId rid c"
    | (all) c where "e = SelectAll viewId c"
    | (clear) "e = Clear viewId"
    | (other) "\<And>rid c. e \<noteq> RowSelect viewId rid c" "\<And>c. e \<noteq> SelectAll viewId c"
        "e \<noteq> Clear viewId"
    by blast
  then show ?thesis
  proof cases
    case row
    then show ?thesis
      using t by (simp add: persisted_def row_select_change_persists [OF t]
          row_select_change_known [OF t] round_tripsD [OF assms(1)])
  next
    case all
    then show ?thesis
      using t
      by (cases "viewId = []")
        (use assms(2) in \<open>auto simp: persisted_def selectAll_def Let_def selectedIds_def
          round_tripsD [OF assms(1)]\<close>)
  next
    case clear
    then show ?thesis
      using t
      by (cases "viewId = []")
        (use assms(2) in \<open>auto simp: persisted_def clearSelections_def selectedIds_def\<close>)
  next
    case other
    then show ?thesis
      using assms(2) step_other_view [OF assms(3) other, of P st]
      by (simp add: persisted_def selectedIds_def)
  qed
qed

lemma all_ids_step:
  assumes "user_action e"
  shows "allRecordIdsOf viewId (step P e st) = allRecordIdsOf viewId st"
  using assms
  by (cases e) (auto simp: allRecordIdsOf_def row_select_change_def selectAll_def
      clearSelections_def Let_def split: option.splits)

lemma persisted_run:
  assumes "round_trips P"
  shows "persisted P viewId st \<Longrightarrow> list_all user_action es \<Longrightarrow>
         persisted P viewId (run P es st)"
  by (induction es arbitrary: st) (simp_all add: persisted_step [OF assms])

lemma all_ids_run:
  "list_all user_action es \<Longrightarrow>
   allRecordIdsOf viewId (run P es st) = allRecordIdsOf viewId st"
  by (induction es arbitrary: st) (simp_all add: all_ids_step)


lemma flag_covers_step:
  assumes "allSelectedOf viewId st \<longrightarrow> covers viewId st"
    and "user_action e" and "row_of_list viewId (allRecordIdsOf viewId st) e"
  shows "allSelectedOf viewId (step P e st) \<longrightarrow> covers viewId (step P e st)"
proof (cases "tableData st viewId")
  case None
  then have "tableData (step P e st) viewId = None"
    using assms(2)
    by (cases e) (auto simp: row_select_change_def selectAll_def clearSelections_def Let_def
        split: option.splits)
  then show ?thesis by (simp add: allSelectedOf_def)
next
  case (Some t)
  show ?thesis
  proof (cases e)
    case (RowSelect w rid c)
    then show ?thesis
      using assms Some
      by (cases "w = viewId")
        (auto simp: covers_def view_defs row_select_change_def Let_def split: option.splits)
  next
    case (SelectAll w c)
    then show ?thesis
      using assms Some
      by (cases "w = viewId")
        (auto simp: covers_def view_defs selectAll_def Let_def split: option.splits)
  next
    case (Clear w)
    then show ?thesis
      using assms Some
      by (cases "w = viewId")
        (auto simp: covers_def view_defs clearSelections_def split: option.splits)
  next
    case (Swap w sw)
    then show ?thesis using assms(2) by simp
  qed
qed

lemma flag_covers_run:
  "allSelectedOf viewId st \<longrightarrow> covers viewId st \<Longrightarrow>
   list_all user_action es \<Longrightarrow>
   list_all (row_of_list viewId (allRecordIdsOf viewId st)) es \<Longrightarrow>
   allSelectedOf viewId (run P es st) \<longrightarrow> covers viewId (run P es st)"
proof (induction es arbitrary: st)
  case Nil
  then show ?case by simp
next
  case (Cons e es)
  have a: "allRecordIdsOf viewId (step P e st) = allRecordIdsOf viewId st"
    using Cons.prems(2) by (simp add: all_ids_step)
  have "allSelectedOf viewId (step P e st) \<longrightarrow> covers viewId (step P e st)"
    using Cons.prems by (intro flag_covers_step) simp_all
  then show ?case
    using Cons.IH [of "step P e st"] Cons.prems a by simp
qed

text \<open>
  Claim C2, as amended: take a view with an id and a list of ids that are not empty,
  in any state reached from its initialization by row selections, select-all and clears
  (on any views), on a platform whose JSON round trip holds. Initializing it again with
  the same list gives the same selection and the same list. The flag after the reload
  is true exactly when the selection covers the list; so a flag that was true stays
  true, provided the rows ticked belong to records of the list, and a flag that was
  false becomes true when the rows were ticked one by one until they cover the list.
  For \<open>v1\<close> with the records 1, 2, 3 and only 2 selected, the reload gives the
  selection \<open>[2]\<close> and a false flag (the witness).
\<close>

theorem reload_keeps_selection:
  assumes "round_trips P" and "viewId \<noteq> []" and "record_id_strings recordIds \<noteq> []"
    and "list_all user_action es"
    and "st = run P es (initializeRecordIds P recordIds viewId st0)"
  shows "selectedIds viewId (initializeRecordIds P recordIds viewId st) = selectedIds viewId st \<and>
         allRecordIdsOf viewId (initializeRecordIds P recordIds viewId st) =
           allRecordIdsOf viewId st \<and>
         (allSelectedOf viewId (initializeRecordIds P recordIds viewId st) \<longleftrightarrow>
            length (selectedIds viewId st) = length (allRecordIdsOf viewId st) \<and>
            set (allRecordIdsOf viewId st) \<subseteq> set (selectedIds viewId st)) \<and>
         (list_all (row_of_list viewId (record_id_strings recordIds)) es \<longrightarrow>
          allSelectedOf viewId st \<longrightarrow>
            allSelectedOf viewId (initializeRecordIds P recordIds viewId st))"
proof -
  let ?st1 = "initializeRecordIds P recordIds viewId st0"
  note iv = initialize_view [OF assms(2,3)]
  have p: "persisted P viewId st"
    unfolding assms(5)
    by (intro persisted_run [OF assms(1)] persisted_initialize assms)
  have ids: "allRecordIdsOf viewId st = record_id_strings recordIds"
    unfolding assms(5) using assms(4) by (simp add: all_ids_run iv)
  have sel: "selectedIds viewId (initializeRecordIds P recordIds viewId st) = selectedIds viewId st"
    using p by (simp add: iv persisted_def)
  have flag: "allSelectedOf viewId (initializeRecordIds P recordIds viewId st) \<longleftrightarrow> covers viewId st"
    using p by (simp add: iv persisted_def covers_def ids)
  have start: "allSelectedOf viewId ?st1 \<longrightarrow> covers viewId ?st1"
    by (simp add: iv covers_def)
  have keep: "allSelectedOf viewId st \<longrightarrow> covers viewId st"
    if "list_all (row_of_list viewId (record_id_strings recordIds)) es"
    unfolding assms(5)
    using that assms(4) by (intro flag_covers_run start) (simp_all add: iv)
  show ?thesis
    using sel ids flag keep by (simp add: iv covers_def)
qed

theorem reload_keeps_selection_witness:
  "selectedIds ''v1'' v1_two = [''2''] \<and>
   allSelectedOf ''v1'' v1_two = False \<and>
   selectedIds ''v1''
     (initializeRecordIds js (Array [IdNum 1, IdNum 2, IdNum 3]) ''v1'' v1_two) = [''2''] \<and>
   allSelectedOf ''v1''
     (initializeRecordIds js (Array [IdNum 1, IdNum 2, IdNum 3]) ''v1'' v1_two) = False"
proof -
  have r: "record_id_strings (Array [IdNum 1, IdNum 2, IdNum 3]) \<noteq> []"
    by code_simp
  have e: "v1_two = run js [RowSelect ''v1'' ''2'' True]
             (initializeRecordIds js (Array [IdNum 1, IdNum 2, IdNum 3]) ''v1'' (fresh Map.empty))"
    by (simp add: v1_two_def v1_store_def)
  have s: "selectedIds ''v1'' v1_two = [''2'']" "allSelectedOf ''v1'' v1_two = False"
      "allRecordIdsOf ''v1'' v1_two = [''1'', ''2'', ''3'']"
    by code_simp+
  show ?thesis
    using reload_keeps_selection [OF js_round_trips _ r _ e] s by simp
qed

text \<open>
  The claim as it was stated fails for the flag: after the rows 1, 2 and 3 of \<open>v1\<close>
  have been ticked one by one the flag is false, and it is true after the reload. It
  fails for a view with an empty list too, where nothing is read back: after select-all
  the flag of such a view is true, and it is false after the reload.
\<close>

theorem reload_sets_flag_counterexample:
  "allSelectedOf ''v0''
     (run js [SelectAll ''v0'' True]
        (initializeRecordIds js (Array []) ''v0'' (fresh Map.empty))) = True \<and>
   allSelectedOf ''v0''
     (initializeRecordIds js (Array []) ''v0''
        (run js [SelectAll ''v0'' True]
           (initializeRecordIds js (Array []) ''v0'' (fresh Map.empty)))) = False \<and>
   allSelectedOf ''v1''
     (run js [RowSelect ''v1'' ''1'' True, RowSelect ''v1'' ''2'' True,
              RowSelect ''v1'' ''3'' True] v1_store) = False \<and>
   allSelectedOf ''v1''
     (initializeRecordIds js (Array [IdNum 1, IdNum 2, IdNum 3]) ''v1''
        (run js [RowSelect ''v1'' ''1'' True, RowSelect ''v1'' ''2'' True,
                 RowSelect ''v1'' ''3'' True] v1_store)) = True"
  by code_simp


subsection \<open>Select all, then a longer list\<close>

lemma selectAll_known:
  assumes "viewId \<noteq> []" and "tableData st viewId = Some t"
  shows "tableData (selectAll P checked viewId st) viewId =
           Some (t\<lparr>allSelected := checked,
                   selectedRecordIds := (if checked then allRecordIds t else [])\<rparr>)"
    and "sessionStorage (selectAll P checked viewId st) (storage_key viewId) =
           Some (JSON_stringify P (if checked then allRecordIds t else []))"
  using assms by (simp_all add: selectAll_def Let_def)

lemma flag_needs_record_step:
  assumes "x \<in> set (allRecordIdsOf viewId st)"
    and "allSelectedOf viewId st \<longrightarrow> x \<in> set (selectedIds viewId st)"
    and "keeps_record viewId x e"
  shows "x \<in> set (allRecordIdsOf viewId (step P e st)) \<and>
         (allSelectedOf viewId (step P e st) \<longrightarrow> x \<in> set (selectedIds viewId (step P e st)))"
proof -
  obtain t where t: "tableData st viewId = Some t"
    using assms(1) by (cases "tableData st viewId") (simp_all add: allRecordIdsOf_def)
  show ?thesis
  proof (cases e)
    case (RowSelect w rid c)
    then show ?thesis
      using assms t
      by (cases "w = viewId")
        (auto simp: view_defs row_select_change_def Let_def split: option.splits)
  next
    case (SelectAll w c)
    then show ?thesis
      using assms t
      by (cases "w = viewId")
        (auto simp: view_defs selectAll_def Let_def split: option.splits)
  next
    case (Clear w)
    then show ?thesis
      using assms t
      by (cases "w = viewId")
        (auto simp: view_defs clearSelections_def split: option.splits)
  next
    case (Swap w sw)
    show ?thesis
    proof (cases sw)
      case (InfiniteScroll rows)
      then show ?thesis using assms Swap by (simp add: afterSwap_def)
    next
      case (Reload recordIds)
      show ?thesis
      proof (cases "w = viewId \<and> w \<noteq> []")
        case True
        then have x: "x \<in> set (record_id_strings recordIds)"
          using assms(3) Swap Reload by simp
        then have ne: "record_id_strings recordIds \<noteq> []" by auto
        show ?thesis
          using True x Swap Reload
          by (auto simp: afterSwap_def initialize_view [OF _ ne])
      next
        case False
        then have "tableData (step P e st) viewId = tableData st viewId"
          using Swap Reload by (auto simp: afterSwap_def initialize_other)
        then show ?thesis using assms by (simp add: view_defs)
      qed
    qed
  qed
qed

lemma flag_needs_record_run:
  "x \<in> set (allRecordIdsOf viewId st) \<Longrightarrow>
   allSelectedOf viewId st \<longrightarrow> x \<in> set (selectedIds viewId st) \<Longrightarrow>
   list_all (keeps_record viewId x) es \<Longrightarrow>
   x \<in> set (allRecordIdsOf viewId (run P es st)) \<and>
   (allSelectedOf viewId (run P es st) \<longrightarrow> x \<in> set (selectedIds viewId (run P es st)))"
proof (induction es arbitrary: st)
  case Nil
  then show ?case by simp
next
  case (Cons e es)
  have "x \<in> set (allRecordIdsOf viewId (step P e st)) \<and>
        (allSelectedOf viewId (step P e st) \<longrightarrow> x \<in> set (selectedIds viewId (step P e st)))"
    using Cons.prems by (intro flag_needs_record_step) simp_all
  then show ?case
    using Cons.IH [of "step P e st"] Cons.prems(3) by simp
qed

text \<open>
  Claim C3, as amended: after \<open>selectAll\<close> with \<open>true\<close> on a known view the
  selection is the list of the view and the flag is true. When a swap that is no
  infinite-scroll page then gives the view its list with a new id at the end,
  \<open>allRecordIds\<close> is the longer list, the selection is kept and the flag is computed
  again as false; from then on, through every sequence of row selections, select-all,
  clears, infinite-scroll pages and swaps that give this view a list which still holds
  the new id, the flag is true only in states where the new id is selected. (A later
  swap that gives the view a list without the new id is left out: the flag is then
  computed against that list.) An infinite-scroll page changes neither
  \<open>allRecordIds\<close> nor the flag. The witness is the claim's scenario: \<open>v1\<close> with the
  records 1, 2, 3 and the new id 4.
\<close>

theorem select_all_then_longer_list:
  assumes "round_trips P" and "viewId \<noteq> []"
    and "tableData st viewId = Some t"
    and "record_id_strings recordIds = allRecordIds t @ [x]"
    and "st1 = selectAll P True viewId st"
    and "st2 = afterSwap P viewId (Reload recordIds) st1"
  shows "selectedIds viewId st1 = allRecordIds t \<and>
         allSelectedOf viewId st1 \<and>
         allRecordIdsOf viewId st2 = allRecordIds t @ [x] \<and>
         selectedIds viewId st2 = allRecordIds t \<and>
         \<not> allSelectedOf viewId st2 \<and>
         (\<forall>es. list_all (keeps_record viewId x) es \<longrightarrow>
               allSelectedOf viewId (run P es st2) \<longrightarrow>
               x \<in> set (selectedIds viewId (run P es st2))) \<and>
         afterSwap P viewId (InfiniteScroll newRows) st1 = st1"
proof -
  have ne: "record_id_strings recordIds \<noteq> []"
    using assms(4) by simp
  have s1: "selectedIds viewId st1 = allRecordIds t" "allSelectedOf viewId st1"
    and stored: "sessionStorage st1 (storage_key viewId) = Some (JSON_stringify P (allRecordIds t))"
    using selectAll_known [OF assms(2,3), of P True] by (simp_all add: assms(5) view_defs)
  have re: "rehydrated P (sessionStorage st1 (storage_key viewId)) = allRecordIds t"
    by (simp add: stored round_tripsD [OF assms(1)])
  note iv = initialize_view [OF assms(2) ne, of P st1]
  have s2: "allRecordIdsOf viewId st2 = allRecordIds t @ [x]"
      "selectedIds viewId st2 = allRecordIds t" "\<not> allSelectedOf viewId st2"
    using assms(2) by (simp_all add: assms(6) afterSwap_def iv re assms(4))
  have later: "allSelectedOf viewId (run P es st2) \<longrightarrow> x \<in> set (selectedIds viewId (run P es st2))"
    if "list_all (keeps_record viewId x) es" for es
    using flag_needs_record_run [of x viewId st2 es P] that s2 by simp
  have scroll: "afterSwap P viewId (InfiniteScroll newRows) st1 = st1"
    by (simp add: afterSwap_def)
  show ?thesis
    using s1 s2 later scroll by blast
qed


theorem select_all_then_longer_list_witness:
  "selectedIds ''v1'' (selectAll js True ''v1'' v1_store) = [''1'', ''2'', ''3''] \<and>
   allSelectedOf ''v1'' (selectAll js True ''v1'' v1_store) \<and>
   allRecordIdsOf ''v1''
     (afterSwap js ''v1'' (Reload (Array [IdNum 1, IdNum 2, IdNum 3, IdNum 4]))
        (selectAll js True ''v1'' v1_store)) = [''1'', ''2'', ''3'', ''4''] \<and>
   \<not> allSelectedOf ''v1''
     (afterSwap js ''v1'' (Reload (Array [IdNum 1, IdNum 2, IdNum 3, IdNum 4]))
        (selectAll js True ''v1'' v1_store)) \<and>
   \<not> allSelectedOf ''v1''
     (run js [RowSelect ''v1'' ''1'' False, RowSelect ''v1'' ''1'' True,
              Swap ''v1'' (Reload (Array [IdNum 1, IdNum 2, IdNum 3, IdNum 4]))]
        (afterSwap js ''v1'' (Reload (Array [IdNum 1, IdNum 2, IdNum 3, IdNum 4]))
           (selectAll js True ''v1'' v1_store)))"
proof -
  have h: "tableData v1_store ''v1'' =
     Some \<lparr>allRecordIds = [''1'', ''2'', ''3''], selectedRecordIds = [], allSelected = False\<rparr>"
    by code_simp
  have r: "record_id_strings (Array [IdNum 1, IdNum 2, IdNum 3, IdNum 4]) =
             allRecordIds \<lparr>allRecordIds = [''1'', ''2'', ''3''], selectedRecordIds = [],
                            allSelected = False\<rparr> @ [''4'']"
    by code_simp
  have k: "list_all (keeps_record ''v1'' ''4'')
             [RowSelect ''v1'' ''1'' False, RowSelect ''v1'' ''1'' True,
              Swap ''v1'' (Reload (Array [IdNum 1, IdNum 2, IdNum 3, IdNum 4]))]"
    by code_simp
  have n: "''4'' \<notin> set (selectedIds ''v1''
     (run js [RowSelect ''v1'' ''1'' False, RowSelect ''v1'' ''1'' True,
              Swap ''v1'' (Reload (Array [IdNum 1, IdNum 2, IdNum 3, IdNum 4]))]
        (afterSwap js ''v1'' (Reload (Array [IdNum 1, IdNum 2, IdNum 3, IdNum 4]))
           (selectAll js True ''v1'' v1_store))))"
    by code_simp
  have v: "''v1'' \<noteq> []"
    by simp
  note T = select_all_then_longer_list [OF js_round_trips v h r refl refl, of "[]"]
  have a: "selectedIds ''v1'' (selectAll js True ''v1'' v1_store) = [''1'', ''2'', ''3'']"
    and b: "allSelectedOf ''v1'' (selectAll js True ''v1'' v1_store)"
    and c: "allRecordIdsOf ''v1''
     (afterSwap js ''v1'' (Reload (Array [IdNum 1, IdNum 2, IdNum 3, IdNum 4]))
        (selectAll js True ''v1'' v1_store)) = [''1'', ''2'', ''3'', ''4'']"
    and d: "\<not> allSelectedOf ''v1''
     (afterSwap js ''v1'' (Reload (Array [IdNum 1, IdNum 2, IdNum 3, IdNum 4]))
        (selectAll js True ''v1'' v1_store))"
    using T by simp_all
  have F: "\<forall>es. list_all (keeps_record ''v1'' ''4'') es \<longrightarrow>
      allSelectedOf ''v1''
        (run js es (afterSwap js ''v1'' (Reload (Array [IdNum 1, IdNum 2, IdNum 3, IdNum 4]))
           (selectAll js True ''v1'' v1_store))) \<longrightarrow>
      ''4'' \<in> set (selectedIds ''v1''
        (run js es (afterSwap js ''v1'' (Reload (Array [IdNum 1, IdNum 2, IdNum 3, IdNum 4]))
           (selectAll js True ''v1'' v1_store))))"
    using T by blast
  have e: "\<not> allSelectedOf ''v1''
     (run js [RowSelect ''v1'' ''1'' False, RowSelect ''v1'' ''1'' True,
              Swap ''v1'' (Reload (Array [IdNum 1, IdNum 2, IdNum 3, IdNum 4]))]
        (afterSwap js ''v1'' (Reload (Array [IdNum 1, IdNum 2, IdNum 3, IdNum 4]))
           (selectAll js True ''v1'' v1_store)))"
    using F [rule_format, OF k] n by blast
  show ?thesis
    by (intro conjI a b c d e)
qed

text \<open>
  The condition on later swaps is needed: when the view is given the list 1, 2, 3
  again after the list 1, 2, 3, 4, the stored selection covers the list and the flag
  is true, with record 4 not selected.
\<close>

lemma shorter_list_sets_flag:
  "allSelectedOf ''v1''
     (afterSwap js ''v1'' (Reload (Array [IdNum 1, IdNum 2, IdNum 3]))
        (afterSwap js ''v1'' (Reload (Array [IdNum 1, IdNum 2, IdNum 3, IdNum 4]))
           (selectAll js True ''v1'' v1_store))) = True \<and>
   selectedIds ''v1''
     (afterSwap js ''v1'' (Reload (Array [IdNum 1, IdNum 2, IdNum 3]))
        (afterSwap js ''v1'' (Reload (Array [IdNum 1, IdNum 2, IdNum 3, IdNum 4]))
           (selectAll js True ''v1'' v1_store))) = [''1'', ''2'', ''3'']"
  by code_simp

text \<open>
  In the claim's scenario, ticking the checkbox of record 4 after the reload selects
  it and leaves the flag false: the row handler never sets the flag.
\<close>

lemma ticking_new_row_keeps_flag:
  "selectedIds ''v1''
     (row_select_change js ''v1'' ''4'' True
        (afterSwap js ''v1'' (Reload (Array [IdNum 1, IdNum 2, IdNum 3, IdNum 4]))
           (selectAll js True ''v1'' v1_store))) = [''1'', ''2'', ''3'', ''4''] \<and>
   allSelectedOf ''v1''
     (row_select_change js ''v1'' ''4'' True
        (afterSwap js ''v1'' (Reload (Array [IdNum 1, IdNum 2, IdNum 3, IdNum 4]))
           (selectAll js True ''v1'' v1_store))) = False"
  by code_simp

text \<open>
  The claim as it was stated fails for a page loaded by infinite scroll: the row of
  record 4 is added to the document (with its checkbox not ticked), the list of \<open>v1\<close>
  still has three ids and the flag is still true.
\<close>

theorem infinite_scroll_keeps_flag_counterexample:
  "processInfiniteScrollRows ''v1'' [''4''] (selectAll js True ''v1'' v1_store) =
     [(''4'', False)] \<and>
   allRecordIdsOf ''v1''
     (afterSwap js ''v1'' (InfiniteScroll [''4'']) (selectAll js True ''v1'' v1_store)) =
     [''1'', ''2'', ''3''] \<and>
   allSelectedOf ''v1''
     (afterSwap js ''v1'' (InfiniteScroll [''4'']) (selectAll js True ''v1'' v1_store)) = True"
  by code_simp

end
